theory Spec2Isabelle
  imports Main
begin

section \<open>Othello: a shallow embedding of \<^verbatim>\<open>game.py\<close>\<close>

subsection \<open>Python values: errors, list indexing, symbols\<close>

text \<open>
  The exceptions the modelled code can raise. A function that can raise returns
  \<open>error + 'a\<close>, with \<open>Inl\<close> for the exception.
\<close>

datatype error = IndexError | KeyError | ValueError

text \<open>
  \<^verbatim>\<open>xs[i]\<close> on a Python list: an index in \<open>[-len, len)\<close> is accepted, a negative one
  counts from the end, any other raises \<^verbatim>\<open>IndexError\<close>.
\<close>

definition py_index :: "'a list \<Rightarrow> int \<Rightarrow> error + 'a" where
  "py_index xs i =
     (if - int (length xs) \<le> i \<and> i < int (length xs)
      then Inr (xs ! nat (if i < 0 then i + int (length xs) else i))
      else Inl IndexError)"

text \<open>\<^verbatim>\<open>xs[i] = v\<close> on a Python list, with the same index rule.\<close>

definition py_setitem :: "'a list \<Rightarrow> int \<Rightarrow> 'a \<Rightarrow> error + 'a list" where
  "py_setitem xs i v =
     (if - int (length xs) \<le> i \<and> i < int (length xs)
      then Inr (xs[nat (if i < 0 then i + int (length xs) else i) := v])
      else Inl IndexError)"

text \<open>\<^verbatim>\<open>class Symbol(IntEnum): BLACK = 0; WHITE = 1\<close>\<close>

datatype Symbol = BLACK | WHITE

fun symbol_value :: "Symbol \<Rightarrow> int" where
  "symbol_value BLACK = 0"
| "symbol_value WHITE = 1"

text \<open>The call \<^verbatim>\<open>Symbol(v)\<close>: a value that is no member raises \<^verbatim>\<open>ValueError\<close>.\<close>

definition Symbol_of :: "int \<Rightarrow> error + Symbol" where
  "Symbol_of v = (if v = 0 then Inr BLACK else if v = 1 then Inr WHITE else Inl ValueError)"

text \<open>\<^verbatim>\<open>class Difficulty(Enum): EASY = 1; MEDIUM = 2; HARD = 3\<close>\<close>

datatype Difficulty = EASY | MEDIUM | HARD

subsection \<open>The board\<close>

text \<open>
  \<^verbatim>\<open>type Board = list[list[int | None]]\<close>. A cell is \<open>None\<close> (empty) or \<open>Some v\<close>;
  the game writes \<open>0\<close> for Black and \<open>1\<close> for White. The rows of a board are
  separate lists (the constructor builds each one anew), so a write to one row
  leaves the others alone.
\<close>

type_synonym cell = "int option"
type_synonym board = "cell list list"
type_synonym coord = "int \<times> int"

text \<open>\<^verbatim>\<open>board[r][c]\<close>\<close>

definition cell_at :: "board \<Rightarrow> int \<Rightarrow> int \<Rightarrow> error + cell" where
  "cell_at b r c = (case py_index b r of Inl e \<Rightarrow> Inl e | Inr line \<Rightarrow> py_index line c)"

text \<open>\<^verbatim>\<open>board[r][c] = v\<close>\<close>

definition set_cell :: "board \<Rightarrow> int \<Rightarrow> int \<Rightarrow> cell \<Rightarrow> error + board" where
  "set_cell b r c v =
     (case py_index b r of
        Inl e \<Rightarrow> Inl e
      | Inr line \<Rightarrow>
          (case py_setitem line c v of
             Inl e \<Rightarrow> Inl e
           | Inr line' \<Rightarrow> py_setitem b r line'))"

text \<open>The test \<^verbatim>\<open>0 <= row < 8 and 0 <= col < 8\<close> that the code repeats.\<close>

definition in_range :: "int \<Rightarrow> int \<Rightarrow> bool" where
  "in_range row col = (0 \<le> row \<and> row < 8 \<and> 0 \<le> col \<and> col < 8)"

text \<open>A board of the game's shape: 8 rows of 8 cells.\<close>

definition wf_board :: "board \<Rightarrow> bool" where
  "wf_board b = (length b = 8 \<and> list_all (\<lambda>line. length line = 8) b)"

subsection \<open>The legality engine: \<^verbatim>\<open>Player.pieces_flipped\<close>\<close>

text \<open>The list \<^verbatim>\<open>dirs\<close> of the eight directions, in the source's order.\<close>

definition dirs :: "coord list" where
  "dirs = [(-1, -1), (-1, 0), (-1, 1), (0, -1), (0, 1), (1, -1), (1, 0), (1, 1)]"

text \<open>
  The \<^verbatim>\<open>while\<close> loop that collects the opponent's run:
  \<^verbatim>\<open>
  while 0 <= row < 8 and 0 <= col < 8 and board[row][col] == opponent_value:
      line.append((row, col)); row += dr; col += dc
  \<close>
  It returns the loop's variables \<open>(line, row, col)\<close>. With \<open>dr = dc = 0\<close> the loop
  would not end, so the function is partial: \<open>None\<close> is "does not return".
\<close>

partial_function (option) collect_run ::
  "board \<Rightarrow> int \<Rightarrow> int \<Rightarrow> int \<Rightarrow> int \<Rightarrow> int \<Rightarrow> coord list \<Rightarrow>
     (error + coord list \<times> int \<times> int) option" where
  "collect_run b opponent_value dr dc row col line =
     (if in_range row col
      then (case cell_at b row col of
              Inl e \<Rightarrow> Some (Inl e)
            | Inr v \<Rightarrow>
                if v = Some opponent_value
                then collect_run b opponent_value dr dc (row + dr) (col + dc) (line @ [(row, col)])
                else Some (Inr (line, row, col)))
      else Some (Inr (line, row, col)))"

declare collect_run.simps [code]

text \<open>
  The body of \<^verbatim>\<open>for dr, dc in dirs\<close>, from the set \<open>flips\<close> before the iteration
  to the set after it.
\<close>

definition scan_dir ::
  "board \<Rightarrow> int \<Rightarrow> int \<Rightarrow> int \<Rightarrow> coord \<Rightarrow> coord set \<Rightarrow> (error + coord set) option" where
  "scan_dir b r c player_value d flips =
     (case d of (dr, dc) \<Rightarrow>
        if \<not> in_range (r + dr) (c + dc) then Some (Inr flips)
        else (case cell_at b (r + dr) (c + dc) of
                Inl e \<Rightarrow> Some (Inl e)
              | Inr v \<Rightarrow>
                  if v \<noteq> Some (1 - player_value) then Some (Inr flips)
                  else (case collect_run b (1 - player_value) dr dc (r + dr) (c + dc) [] of
                          None \<Rightarrow> None
                        | Some (Inl e) \<Rightarrow> Some (Inl e)
                        | Some (Inr (line, row, col)) \<Rightarrow>
                            if in_range row col
                            then (case cell_at b row col of
                                    Inl e \<Rightarrow> Some (Inl e)
                                  | Inr w \<Rightarrow>
                                      if w = Some player_value
                                      then Some (Inr (flips \<union> set line))
                                      else Some (Inr flips))
                            else Some (Inr flips))))"

text \<open>The \<^verbatim>\<open>for\<close> loop over a list of directions.\<close>

fun scan_dirs ::
  "board \<Rightarrow> int \<Rightarrow> int \<Rightarrow> int \<Rightarrow> coord list \<Rightarrow> coord set \<Rightarrow> (error + coord set) option" where
  "scan_dirs b r c player_value [] flips = Some (Inr flips)"
| "scan_dirs b r c player_value (d # ds) flips =
     (case scan_dir b r c player_value d flips of
        None \<Rightarrow> None
      | Some (Inl e) \<Rightarrow> Some (Inl e)
      | Some (Inr flips') \<Rightarrow> scan_dirs b r c player_value ds flips')"

definition pieces_flipped ::
  "board \<Rightarrow> int \<Rightarrow> int \<Rightarrow> int \<Rightarrow> (error + coord set) option" where
  "pieces_flipped b r c player_value =
     (case cell_at b r c of
        Inl e \<Rightarrow> Some (Inl e)
      | Inr v \<Rightarrow>
          if v \<noteq> None then Some (Inr {})
          else scan_dirs b r c player_value dirs {})"

subsection \<open>The move enumerator: \<^verbatim>\<open>Player.get_valid_moves\<close>\<close>

text \<open>
  A Python \<^verbatim>\<open>dict\<close> keeps its keys in insertion order, and the bot's strategy
  iterates over it, so the mapping is an association list in that order.
\<close>

type_synonym moves = "(coord \<times> coord set) list"

text \<open>
  The dict comprehension over a list of coordinates: a coordinate is kept when
  \<^verbatim>\<open>board[r][c] is None and (flipped := Player.pieces_flipped(board, r, c, player_value))\<close>;
  a set is true when it is not empty.
\<close>

fun valid_moves_loop :: "board \<Rightarrow> int \<Rightarrow> coord list \<Rightarrow> (error + moves) option" where
  "valid_moves_loop b player_value [] = Some (Inr [])"
| "valid_moves_loop b player_value ((r, c) # rest) =
     (case cell_at b r c of
        Inl e \<Rightarrow> Some (Inl e)
      | Inr v \<Rightarrow>
          if v = None
          then (case pieces_flipped b r c player_value of
                  None \<Rightarrow> None
                | Some (Inl e) \<Rightarrow> Some (Inl e)
                | Some (Inr flipped) \<Rightarrow>
                    (case valid_moves_loop b player_value rest of
                       None \<Rightarrow> None
                     | Some (Inl e) \<Rightarrow> Some (Inl e)
                     | Some (Inr ms) \<Rightarrow>
                         Some (Inr (if flipped \<noteq> {} then ((r, c), flipped) # ms else ms))))
          else valid_moves_loop b player_value rest)"

text \<open>\<^verbatim>\<open>for r in range(8) for c in range(8)\<close>: the row is the outer loop.\<close>

definition all_coords :: "coord list" where
  "all_coords = List.product [0..7] [0..7]"

definition get_valid_moves :: "board \<Rightarrow> Symbol \<Rightarrow> (error + moves) option" where
  "get_valid_moves b symbol = valid_moves_loop b (symbol_value symbol) all_coords"

subsection \<open>The bot: \<^verbatim>\<open>Bot._medium_strategy\<close>\<close>

record Bot =
  bot_symbol :: Symbol
  human_symbol :: Symbol
  difficulty :: Difficulty

text \<open>\<^verbatim>\<open>Bot.__init__\<close>; \<^verbatim>\<open>Symbol(1 - bot_symbol.value)\<close> cannot raise on a symbol.\<close>

definition Bot_init :: "Symbol \<Rightarrow> Difficulty \<Rightarrow> error + Bot" where
  "Bot_init bsymbol level =
     (case Symbol_of (1 - symbol_value bsymbol) of
        Inl e \<Rightarrow> Inl e
      | Inr h \<Rightarrow> Inr \<lparr>bot_symbol = bsymbol, human_symbol = h, difficulty = level\<rparr>)"

text \<open>
  \<^verbatim>\<open>random.choice(seq)\<close>: \<^verbatim>\<open>IndexError\<close> on an empty sequence, otherwise the element
  at a random index below the length. The number \<open>k\<close> is what the random source
  draws; every outcome of the choice is the outcome for some \<open>k\<close>.
\<close>

definition random_choice :: "nat \<Rightarrow> 'a list \<Rightarrow> error + 'a" where
  "random_choice k seq = (if seq = [] then Inl IndexError else Inr (seq ! (k mod length seq)))"

text \<open>\<^verbatim>\<open>valid_moves[move]\<close>\<close>

definition lookup_move :: "moves \<Rightarrow> coord \<Rightarrow> error + coord set" where
  "lookup_move valid_moves m =
     (case map_of valid_moves m of None \<Rightarrow> Inl KeyError | Some flipped \<Rightarrow> Inr flipped)"

text \<open>\<^verbatim>\<open>move = random.choice(pool); return move, valid_moves[move]\<close>\<close>

definition choose_from :: "nat \<Rightarrow> coord list \<Rightarrow> moves \<Rightarrow> (error + coord \<times> coord set) option" where
  "choose_from k pool valid_moves =
     (case random_choice k pool of
        Inl e \<Rightarrow> Some (Inl e)
      | Inr m \<Rightarrow>
          (case lookup_move valid_moves m of
             Inl e \<Rightarrow> Some (Inl e)
           | Inr flipped \<Rightarrow> Some (Inr (m, flipped))))"

definition CORNERS :: "coord list" where
  "CORNERS = [(0, 0), (0, 7), (7, 0), (7, 7)]"

text \<open>
  \<^verbatim>\<open>EDGES = [(0, c) for c in range(8)] + [(r, 0) for r in range(8)]
         + [(7, c) for c in range(1, 7)] + [(r, 7) for r in range(1, 7)]\<close>
\<close>

definition EDGES :: "coord list" where
  "EDGES = map (\<lambda>c. (0, c)) [0..7] @ map (\<lambda>r. (r, 0)) [0..7]
         @ map (\<lambda>c. (7, c)) [1..6] @ map (\<lambda>r. (r, 7)) [1..6]"

text \<open>
  The set comprehension \<^verbatim>\<open>pseudo_cand\<close>: the in-range empty neighbours of the
  affected squares. Reading a cell can raise on a board that is not 8 by 8.
\<close>

definition pseudo_cand :: "board \<Rightarrow> coord set \<Rightarrow> error + coord set" where
  "pseudo_cand b affected =
     (let near = Set.filter (\<lambda>p. in_range (fst p) (snd p))
                   (\<Union>a\<in>affected. (\<lambda>d. (fst a + fst d, snd a + snd d)) ` set dirs)
      in if \<exists>p\<in>near. cell_at b (fst p) (snd p) = Inl IndexError
         then Inl IndexError
         else Inr (Set.filter (\<lambda>p. cell_at b (fst p) (snd p) = Inr None) near))"

text \<open>
  \<^verbatim>\<open>any(corner in pseudo_cand and self.pieces_flipped(board, corner[0], corner[1],
  self.human_symbol.value) for corner in CORNERS)\<close>, which stops at the first true
  element.
\<close>

fun gives_corner :: "board \<Rightarrow> int \<Rightarrow> coord set \<Rightarrow> coord list \<Rightarrow> (error + bool) option" where
  "gives_corner b human_value cand [] = Some (Inr False)"
| "gives_corner b human_value cand (corner # rest) =
     (if corner \<in> cand
      then (case pieces_flipped b (fst corner) (snd corner) human_value of
              None \<Rightarrow> None
            | Some (Inl e) \<Rightarrow> Some (Inl e)
            | Some (Inr flipped) \<Rightarrow>
                if flipped \<noteq> {} then Some (Inr True)
                else gives_corner b human_value cand rest)
      else gives_corner b human_value cand rest)"

text \<open>
  The loop \<^verbatim>\<open>for (r, c), flipped in valid_moves.items()\<close>: it returns the dict
  \<^verbatim>\<open>possible_moves\<close> and the list \<^verbatim>\<open>valid_non_corner\<close>, both in the order of the
  iteration.
\<close>

fun safety_loop ::
  "board \<Rightarrow> int \<Rightarrow> moves \<Rightarrow> (error + (coord \<times> nat) list \<times> coord list) option" where
  "safety_loop b human_value [] = Some (Inr ([], []))"
| "safety_loop b human_value ((m, flipped) # rest) =
     (case pseudo_cand b (insert m flipped) of
        Inl e \<Rightarrow> Some (Inl e)
      | Inr cand \<Rightarrow>
          (case gives_corner b human_value cand CORNERS of
             None \<Rightarrow> None
           | Some (Inl e) \<Rightarrow> Some (Inl e)
           | Some (Inr risky) \<Rightarrow>
               (case safety_loop b human_value rest of
                  None \<Rightarrow> None
                | Some (Inl e) \<Rightarrow> Some (Inl e)
                | Some (Inr (possible_moves, valid_non_corner)) \<Rightarrow>
                    Some (Inr ((m, card cand) # possible_moves,
                               if \<not> risky then m # valid_non_corner else valid_non_corner)))))"

text \<open>
  The last stage: \<^verbatim>\<open>sorted\<close> is stable, \<^verbatim>\<open>sorted_possible_moves[0]\<close> raises on an
  empty list.
\<close>

definition least_exposed :: "(coord \<times> nat) list \<Rightarrow> error + coord list" where
  "least_exposed possible_moves =
     (case sort_key snd possible_moves of
        [] \<Rightarrow> Inl IndexError
      | first # others \<Rightarrow>
          Inr (map fst (filter (\<lambda>kv. snd kv = snd first) (first # others))))"

definition medium_strategy ::
  "Bot \<Rightarrow> nat \<Rightarrow> board \<Rightarrow> moves \<Rightarrow> (error + coord \<times> coord set) option" where
  "medium_strategy self k b valid_moves =
     (let valid_corner = filter (\<lambda>m. map_of valid_moves m \<noteq> None) CORNERS in
      if valid_corner \<noteq> [] then choose_from k valid_corner valid_moves
      else (case safety_loop b (symbol_value (human_symbol self)) valid_moves of
              None \<Rightarrow> None
            | Some (Inl e) \<Rightarrow> Some (Inl e)
            | Some (Inr (possible_moves, valid_non_corner)) \<Rightarrow>
                if valid_non_corner \<noteq> [] then choose_from k valid_non_corner valid_moves
                else (let valid_edges = filter (\<lambda>m. map_of valid_moves m \<noteq> None) EDGES in
                      if valid_edges \<noteq> [] then choose_from k valid_edges valid_moves
                      else (case least_exposed possible_moves of
                              Inl e \<Rightarrow> Some (Inl e)
                            | Inr tied \<Rightarrow> choose_from k tied valid_moves))))"

subsection \<open>The game: \<^verbatim>\<open>Game\<close>\<close>

text \<open>
  The fields of a \<^verbatim>\<open>Game\<close> that its methods \<^verbatim>\<open>move\<close> and \<^verbatim>\<open>_find_winner\<close> use.
  The field \<^verbatim>\<open>winner\<close> is \<open>None\<close> for a draw and before the end.
\<close>

record game =
  board :: board
  current :: Symbol
  game_over :: bool
  winner :: "Symbol option"
  moves :: int

text \<open>The board the constructor builds: 8 fresh rows of 8 empty cells, then four writes.\<close>

definition empty_board :: board where
  "empty_board = replicate 8 (replicate 8 None)"

definition put :: "board \<Rightarrow> nat \<Rightarrow> nat \<Rightarrow> cell \<Rightarrow> board" where
  "put b r c v = b[r := (b ! r)[c := v]]"

definition start_board :: board where
  "start_board =
     put (put (put (put empty_board 3 3 (Some (symbol_value BLACK)))
                 3 4 (Some (symbol_value WHITE)))
            4 3 (Some (symbol_value WHITE)))
       4 4 (Some (symbol_value BLACK))"

definition Game_init :: "Symbol \<Rightarrow> game" where
  "Game_init starting_player =
     \<lparr>board = start_board, current = starting_player, game_over = False,
      winner = None, moves = 0\<rparr>"

text \<open>
  \<^verbatim>\<open>sum(cell == v for cell in cells)\<close> over a generator: the sum reads the generator
  to its end, so it returns the count together with the generator left behind,
  which is exhausted.
\<close>

definition sum_equal :: "int \<Rightarrow> cell list \<Rightarrow> int \<times> cell list" where
  "sum_equal v cells = (int (length (filter (\<lambda>cell. cell = Some v) cells)), [])"

text \<open>
  \<^verbatim>\<open>Game._find_winner\<close>. The name \<^verbatim>\<open>cells\<close> is one generator, and both sums read
  from it, the second after the first.
\<close>

definition find_winner :: "game \<Rightarrow> Symbol option" where
  "find_winner g =
     (let cells = concat (board g);
          (black, cells1) = sum_equal (symbol_value BLACK) cells;
          (white, cells2) = sum_equal (symbol_value WHITE) cells1
      in if black = white then None
         else Some (if black > white then BLACK else WHITE))"

text \<open>
  \<^verbatim>\<open>for r, c in flipped: self.board[r][c] = self.current\<close>. The list is the set
  \<^verbatim>\<open>flipped\<close> in the order in which the loop meets its elements.
\<close>

fun flip_all :: "board \<Rightarrow> cell \<Rightarrow> coord list \<Rightarrow> error + board" where
  "flip_all b v [] = Inr b"
| "flip_all b v ((r, c) # rest) =
     (case set_cell b r c v of Inl e \<Rightarrow> Inl e | Inr b' \<Rightarrow> flip_all b' v rest)"

text \<open>
  \<^verbatim>\<open>Game.move\<close>, from the game before the call to the game after it. The method
  returns \<^verbatim>\<open>True\<close> whenever it returns, so the result is the new state alone.
\<close>

definition move :: "game \<Rightarrow> int \<Rightarrow> int \<Rightarrow> coord list \<Rightarrow> error + game" where
  "move g row col flipped =
     (case set_cell (board g) row col (Some (symbol_value (current g))) of
        Inl e \<Rightarrow> Inl e
      | Inr b1 \<Rightarrow>
          (case flip_all b1 (Some (symbol_value (current g))) flipped of
             Inl e \<Rightarrow> Inl e
           | Inr b2 \<Rightarrow>
               (let g2 = g\<lparr>board := b2, moves := moves g + 1\<rparr> in
                if moves g2 = 60
                then Inr (g2\<lparr>game_over := True, winner := find_winner g2\<rparr>)
                else (case Symbol_of (1 - symbol_value (current g)) of
                        Inl e \<Rightarrow> Inl e
                      | Inr s \<Rightarrow> Inr (g2\<lparr>current := s\<rparr>)))))"

subsection \<open>The rules of the game, as the specification words them\<close>

text \<open>A cell of the board, inside the board, that holds the colour \<open>v\<close>.\<close>

definition holds :: "board \<Rightarrow> int \<Rightarrow> int \<Rightarrow> int \<Rightarrow> bool" where
  "holds b r c v = (in_range r c \<and> cell_at b r c = Inr (Some v))"

text \<open>
  In direction \<open>d\<close> from \<open>(r, c)\<close>, the cells at distances \<open>1, \<dots>, n - 1\<close> hold the
  opponent's colour and the cell at distance \<open>n\<close> holds the mover's own: a run of
  the opponent's cells closed, inside the board, by a cell of the mover.
\<close>

definition closed_run :: "board \<Rightarrow> int \<Rightarrow> int \<Rightarrow> int \<Rightarrow> coord \<Rightarrow> nat \<Rightarrow> bool" where
  "closed_run b r c player_value d n =
     ((\<forall>j. 1 \<le> j \<and> j < n \<longrightarrow>
           holds b (r + int j * fst d) (c + int j * snd d) (1 - player_value))
      \<and> holds b (r + int n * fst d) (c + int n * snd d) player_value)"

text \<open>The cells of the closed run in direction \<open>d\<close>; none when the run is not closed.\<close>

definition run_captured :: "board \<Rightarrow> int \<Rightarrow> int \<Rightarrow> int \<Rightarrow> coord \<Rightarrow> coord set" where
  "run_captured b r c player_value d =
     {(r + int k * fst d, c + int k * snd d) | k n.
        1 \<le> k \<and> k < n \<and> closed_run b r c player_value d n}"

text \<open>The capture set of a move: the union over the eight directions.\<close>

definition captured :: "board \<Rightarrow> int \<Rightarrow> int \<Rightarrow> int \<Rightarrow> coord set" where
  "captured b r c player_value = (\<Union>d\<in>set dirs. run_captured b r c player_value d)"

text \<open>A legal move: an empty cell of the board whose capture set is not empty.\<close>

definition legal_move :: "board \<Rightarrow> int \<Rightarrow> coord \<Rightarrow> bool" where
  "legal_move b player_value m =
     (in_range (fst m) (snd m) \<and> cell_at b (fst m) (snd m) = Inr None
      \<and> captured b (fst m) (snd m) player_value \<noteq> {})"

text \<open>The colour swap: Black and White cells change places, empty cells stay.\<close>

definition swap_cell :: "cell \<Rightarrow> cell" where
  "swap_cell v = (if v = Some 0 then Some 1 else if v = Some 1 then Some 0 else v)"

definition colorSwap :: "board \<Rightarrow> board" where
  "colorSwap b = map (map swap_cell) b"

text \<open>The number of cells of one colour, and of occupied cells.\<close>

definition count_cells :: "int \<Rightarrow> board \<Rightarrow> nat" where
  "count_cells v b = length (filter (\<lambda>cell. cell = Some v) (concat b))"

definition occupied :: "board \<Rightarrow> nat" where
  "occupied b = length (filter (\<lambda>cell. cell \<noteq> None) (concat b))"

subsection \<open>Notions and positions used in the statements\<close>

text \<open>The keys of a dict of moves.\<close>

definition keys :: "moves \<Rightarrow> coord set" where
  "keys ms = fst ` set ms"

text \<open>
  A board with a White piece in the corner \<open>(0, 0)\<close> and a Black piece below it,
  the rest empty.
\<close>

definition edge_board :: board where
  "edge_board =
     put (put empty_board 0 0 (Some (symbol_value WHITE))) 1 0 (Some (symbol_value BLACK))"

text \<open>A dict of moves with two corner keys and one key that is no corner.\<close>

definition corner_moves :: moves where
  "corner_moves = [((0, 0), {(1, 1)}), ((2, 3), {(3, 3)}), ((7, 7), {(6, 6), (5, 5)})]"

text \<open>The number of pieces on a board: Black cells plus White cells.\<close>

definition pieces :: "board \<Rightarrow> nat" where
  "pieces b = count_cells (symbol_value BLACK) b + count_cells (symbol_value WHITE) b"

text \<open>
  A move as C6 describes it: the board is 8 by 8, the target is a cell of the board
  and empty, \<open>flipped\<close> lists the capture set that \<open>pieces_flipped\<close> computes for the
  colour to move, and \<open>Game.move\<close> returns the state \<open>g'\<close>.
\<close>

definition capture_move :: "game \<Rightarrow> int \<Rightarrow> int \<Rightarrow> coord list \<Rightarrow> game \<Rightarrow> bool" where
  "capture_move g row col flipped g' =
     (wf_board (board g) \<and> in_range row col \<and> cell_at (board g) row col = Inr None
      \<and> pieces_flipped (board g) row col (symbol_value (current g)) = Some (Inr (set flipped))
      \<and> move g row col flipped = Inr g')"

definition capture_step :: "game \<Rightarrow> game \<Rightarrow> bool" where
  "capture_step g g' = (\<exists>row col flipped. capture_move g row col flipped g')"

text \<open>
  One turn of \<^verbatim>\<open>Game.play\<close> with a player that returns a legal move, as
  \<^verbatim>\<open>Human.get_move\<close> does: a coordinate of the board whose capture set for the
  colour to move is not empty, passed to \<open>Game.move\<close> with that set.
\<close>

definition legal_step :: "game \<Rightarrow> game \<Rightarrow> bool" where
  "legal_step g g' =
     (\<exists>row col flipped.
        in_range row col
        \<and> pieces_flipped (board g) row col (symbol_value (current g)) = Some (Inr (set flipped))
        \<and> set flipped \<noteq> {}
        \<and> move g row col flipped = Inr g')"

text \<open>
  A scripted game: each entry is the coordinate a player returns and the list of
  its capture set. The run stops with \<open>None\<close> at an entry that is no legal move.
\<close>

fun replay :: "game \<Rightarrow> (coord \<times> coord list) list \<Rightarrow> game option" where
  "replay g [] = Some g"
| "replay g (((r, c), flipped) # rest) =
     (if in_range r c
         \<and> pieces_flipped (board g) r c (symbol_value (current g)) = Some (Inr (set flipped))
         \<and> set flipped \<noteq> {}
      then (case move g r c flipped of Inl e \<Rightarrow> None | Inr g' \<Rightarrow> replay g' rest)
      else None)"

text \<open>The state after Black's opening move \<open>(2, 4)\<close>, which captures \<open>(3, 4)\<close>.\<close>

definition after_opening :: game where
  "after_opening =
     \<lparr>board =
        [[None, None, None, None, None, None, None, None],
         [None, None, None, None, None, None, None, None],
         [None, None, None, None, Some 0, None, None, None],
         [None, None, None, Some 0, Some 0, None, None, None],
         [None, None, None, Some 1, Some 0, None, None, None],
         [None, None, None, None, None, None, None, None],
         [None, None, None, None, None, None, None, None],
         [None, None, None, None, None, None, None, None]],
      current = WHITE, game_over = False, winner = None, moves = 1\<rparr>"

text \<open>A game of 60 legal moves in which nobody has to pass; Black moves first.\<close>

definition full_game :: "(coord \<times> coord list) list" where
  "full_game =
     [((5, 3), [(4, 3)]), ((5, 2), [(4, 3)]), ((2, 4), [(3, 4)]), ((4, 5), [(4, 4)]),
      ((5, 6), [(4, 5)]), ((6, 3), [(5, 3)]), ((6, 1), [(4, 3), (5, 2)]), ((5, 1), [(5, 2)]),
      ((5, 5), [(4, 4)]), ((7, 0), [(6, 1)]), ((7, 3), [(5, 3), (6, 3)]), ((7, 4), [(6, 3)]),
      ((5, 0), [(5, 1), (5, 2)]), ((2, 5), [(3, 4), (4, 3), (5, 2)]), ((3, 5), [(3, 4)]),
      ((4, 1), [(5, 1)]), ((7, 5), [(7, 4)]), ((2, 3), [(2, 4), (3, 3)]), ((7, 2), [(6, 1)]),
      ((7, 1), [(6, 1)]), ((1, 6), [(2, 5)]), ((3, 6), [(3, 4), (3, 5)]), ((2, 6), [(3, 5)]),
      ((0, 7), [(1, 6), (2, 5)]), ((4, 6), [(3, 6)]), ((3, 7), [(3, 5), (3, 6)]),
      ((5, 4), [(6, 3)]), ((6, 2), [(4, 4), (5, 3)]), ((3, 0), [(4, 1), (5, 2)]),
      ((6, 5), [(4, 5), (5, 4), (5, 5)]), ((1, 2), [(2, 3), (3, 4), (4, 5)]), ((3, 1), [(4, 1)]),
      ((4, 0), [(5, 1), (6, 2)]), ((4, 7), [(4, 5), (4, 6), (5, 6)]), ((6, 0), [(6, 1)]),
      ((1, 7), [(2, 6)]), ((6, 4), [(4, 4), (5, 4)]), ((2, 2), [(2, 3)]),
      ((4, 2), [(4, 1), (4, 3), (5, 3)]), ((7, 6), [(7, 2), (7, 3), (7, 4), (7, 5)]),
      ((2, 0), [(3, 1)]), ((0, 1), [(1, 2)]), ((6, 7), [(4, 5), (5, 6)]),
      ((1, 0), [(2, 0), (3, 0), (4, 0), (5, 0), (6, 0)]), ((1, 1), [(2, 2), (3, 3)]),
      ((5, 7), [(5, 6)]), ((1, 5), [(2, 4), (2, 5), (3, 5)]),
      ((0, 0), [(1, 1), (2, 2), (3, 3), (4, 4)]), ((6, 6), [(6, 5)]), ((7, 7), [(6, 6), (6, 7)]),
      ((2, 7), [(2, 6), (3, 6)]), ((0, 5), [(1, 5), (2, 5), (3, 5), (4, 5)]), ((3, 2), [(3, 3)]),
      ((1, 4), [(2, 4), (3, 4)]), ((2, 1), [(2, 2), (2, 3), (2, 4), (2, 5)]),
      ((1, 3), [(2, 2), (2, 3), (2, 4), (3, 1), (3, 3), (4, 3), (5, 3), (6, 3)]),
      ((0, 3), [(1, 2), (1, 4)]), ((0, 2), [(1, 2)]), ((0, 4), [(1, 5)]), ((0, 6), [(1, 5)])]"

text \<open>
  The state of that game after 59 moves: White is to move, the cell \<open>(0, 6)\<close> is the
  last empty one, Black has 19 cells and White 44.
\<close>

definition late_game :: game where
  "late_game =
     \<lparr>board =
        [[Some 1, Some 1, Some 1, Some 0, Some 0, Some 1, None, Some 1],
         [Some 1, Some 1, Some 1, Some 1, Some 0, Some 0, Some 1, Some 1],
         [Some 1, Some 0, Some 1, Some 1, Some 1, Some 0, Some 0, Some 0],
         [Some 1, Some 1, Some 0, Some 1, Some 1, Some 1, Some 0, Some 1],
         [Some 1, Some 0, Some 0, Some 1, Some 1, Some 1, Some 1, Some 1],
         [Some 1, Some 0, Some 0, Some 1, Some 0, Some 1, Some 1, Some 1],
         [Some 1, Some 0, Some 0, Some 1, Some 0, Some 0, Some 1, Some 1],
         [Some 1, Some 1, Some 1, Some 1, Some 1, Some 1, Some 1, Some 1]],
      current = WHITE, game_over = False, winner = None, moves = 59\<rparr>"

subsection \<open>Measures used in the proofs\<close>

text \<open>
  How many steps in direction \<open>(dr, dc)\<close> are left before the walk leaves the
  board: what decreases in the loop of \<open>collect_run\<close>.
\<close>

definition dist_to_edge :: "int \<Rightarrow> int \<Rightarrow> int \<Rightarrow> int \<Rightarrow> nat" where
  "dist_to_edge dr dc row col =
     (if 0 < dr then nat (8 - row) else if dr < 0 then nat (row + 1)
      else if 0 < dc then nat (8 - col) else nat (col + 1))"

text \<open>The coordinates of the board whose cell satisfies \<open>P\<close>: what a count counts.\<close>

definition cells_where :: "board \<Rightarrow> (cell \<Rightarrow> bool) \<Rightarrow> coord set" where
  "cells_where b P = {p. in_range (fst p) (snd p) \<and> P (b ! nat (fst p) ! nat (snd p))}"

section \<open>Properties\<close>

subsection \<open>Reading a board of the game's shape\<close>

lemma cell_at_wf:
  assumes "wf_board b" and "in_range r c"
  shows "cell_at b r c = Inr (b ! nat r ! nat c)"
proof -
  from assms have "nat r < length b" by (auto simp: wf_board_def in_range_def)
  then have "length (b ! nat r) = 8"
    using assms(1) by (simp add: wf_board_def list_all_length)
  then show ?thesis
    using assms by (simp add: cell_at_def py_index_def wf_board_def in_range_def)
qed

lemma dist_to_edge_step:
  "in_range row col \<Longrightarrow> dr \<noteq> 0 \<or> dc \<noteq> 0 \<Longrightarrow>
   dist_to_edge dr dc (row + dr) (col + dc) < dist_to_edge dr dc row col"
  by (auto simp: dist_to_edge_def in_range_def)

lemma collect_run_wf:
  assumes "wf_board b" and "dr \<noteq> 0 \<or> dc \<noteq> 0"
  shows "\<exists>m. collect_run b opp dr dc row col line =
            Some (Inr (line @ map (\<lambda>k. (row + int k * dr, col + int k * dc)) [0..<m],
                       row + int m * dr, col + int m * dc))
          \<and> (\<forall>k<m. holds b (row + int k * dr) (col + int k * dc) opp)
          \<and> \<not> holds b (row + int m * dr) (col + int m * dc) opp"
proof (induction "dist_to_edge dr dc row col" arbitrary: row col line rule: less_induct)
  case less
  show ?case
  proof (cases "holds b row col opp")
    case False
    then have "collect_run b opp dr dc row col line = Some (Inr (line, row, col))"
      using assms(1)
      by (subst collect_run.simps) (auto simp: holds_def cell_at_wf)
    with False show ?thesis
      by (intro exI[of _ 0]) simp
  next
    case True
    then have ir: "in_range row col" by (simp add: holds_def)
    from less[OF dist_to_edge_step[OF ir assms(2)], of "line @ [(row, col)]"]
    obtain m where m:
      "collect_run b opp dr dc (row + dr) (col + dc) (line @ [(row, col)]) =
         Some (Inr ((line @ [(row, col)]) @
                      map (\<lambda>k. (row + dr + int k * dr, col + dc + int k * dc)) [0..<m],
                    row + dr + int m * dr, col + dc + int m * dc))"
      "\<forall>k<m. holds b (row + dr + int k * dr) (col + dc + int k * dc) opp"
      "\<not> holds b (row + dr + int m * dr) (col + dc + int m * dc) opp"
      by blast
    have step: "collect_run b opp dr dc row col line =
        collect_run b opp dr dc (row + dr) (col + dc) (line @ [(row, col)])"
      using True by (subst collect_run.simps) (simp add: holds_def)
    have shift: "map (\<lambda>k. (row + int k * dr, col + int k * dc)) [0..<Suc m] =
        (row, col) # map (\<lambda>k. (row + dr + int k * dr, col + dc + int k * dc)) [0..<m]"
      by (simp add: upt_conv_Cons map_Suc_upt[symmetric] algebra_simps del: upt_Suc)
    have "\<forall>k<Suc m. holds b (row + int k * dr) (col + int k * dc) opp"
    proof (intro allI impI)
      fix k assume "k < Suc m"
      show "holds b (row + int k * dr) (col + int k * dc) opp"
      proof (cases k)
        case 0 with True show ?thesis by simp
      next
        case (Suc k')
        with \<open>k < Suc m\<close> m(2) have "holds b (row + dr + int k' * dr) (col + dc + int k' * dc) opp"
          by simp
        with Suc show ?thesis by (simp add: algebra_simps)
      qed
    qed
    moreover have "\<not> holds b (row + int (Suc m) * dr) (col + int (Suc m) * dc) opp"
      using m(3) by (simp add: algebra_simps)
    moreover have "collect_run b opp dr dc row col line =
        Some (Inr (line @ map (\<lambda>k. (row + int k * dr, col + int k * dc)) [0..<Suc m],
                   row + int (Suc m) * dr, col + int (Suc m) * dc))"
      unfolding step m(1) shift by (simp add: algebra_simps)
    ultimately show ?thesis by blast
  qed
qed

lemma holds_colour: "holds b r c v \<Longrightarrow> holds b r c w \<Longrightarrow> v = w"
  by (simp add: holds_def)

lemma run_captured_eq:
  assumes run: "\<forall>k. 1 \<le> k \<and> k \<le> m \<longrightarrow> holds b (r + int k * dr) (c + int k * dc) (1 - p)"
    and stop: "\<not> holds b (r + int (Suc m) * dr) (c + int (Suc m) * dc) (1 - p)"
  shows "run_captured b r c p (dr, dc) =
           (if holds b (r + int (Suc m) * dr) (c + int (Suc m) * dc) p
            then {(r + int k * dr, c + int k * dc) | k. 1 \<le> k \<and> k \<le> m} else {})"
proof -
  have uniq: "n = Suc m" if cr: "closed_run b r c p (dr, dc) n" and "1 \<le> n" for n
  proof (rule ccontr)
    assume "n \<noteq> Suc m"
    then consider "n \<le> m" | "Suc m < n" by linarith
    then show False
    proof cases
      case 1
      with run \<open>1 \<le> n\<close> have "holds b (r + int n * dr) (c + int n * dc) (1 - p)" by simp
      moreover from cr have "holds b (r + int n * dr) (c + int n * dc) p"
        by (simp add: closed_run_def)
      ultimately have "1 - p = p" by (rule holds_colour)
      then show False by arith
    next
      case 2
      with cr have "holds b (r + int (Suc m) * dr) (c + int (Suc m) * dc) (1 - p)"
        unfolding closed_run_def fst_conv snd_conv by (metis le_add1 plus_1_eq_Suc)
      with stop show False by simp
    qed
  qed
  show ?thesis
  proof (cases "holds b (r + int (Suc m) * dr) (c + int (Suc m) * dc) p")
    case True
    have cr: "closed_run b r c p (dr, dc) (Suc m)"
      using run True by (simp add: closed_run_def)
    have "run_captured b r c p (dr, dc) = {(r + int k * dr, c + int k * dc) | k. 1 \<le> k \<and> k \<le> m}"
      (is "?L = ?R")
    proof (rule set_eqI, rule iffI)
      fix x assume "x \<in> ?L"
      then obtain k n where x: "x = (r + int k * dr, c + int k * dc)" and "1 \<le> k" "k < n"
        and "closed_run b r c p (dr, dc) n"
        by (auto simp: run_captured_def)
      with uniq[of n] have "n = Suc m" by simp
      with x \<open>1 \<le> k\<close> \<open>k < n\<close> show "x \<in> ?R" by auto
    next
      fix x assume "x \<in> ?R"
      then obtain k where "x = (r + int k * dr, c + int k * dc)" "1 \<le> k" "k \<le> m" by auto
      with cr show "x \<in> ?L"
        unfolding run_captured_def fst_conv snd_conv
        by (intro CollectI exI[of _ k] exI[of _ "Suc m"]) simp
    qed
    with True show ?thesis by simp
  next
    case False
    have "run_captured b r c p (dr, dc) = {}"
    proof (rule ccontr)
      assume "run_captured b r c p (dr, dc) \<noteq> {}"
      then obtain k n where "1 \<le> k" "k < n" and cr: "closed_run b r c p (dr, dc) n"
        by (auto simp: run_captured_def)
      with uniq[of n] have "n = Suc m" by simp
      with cr False show False by (simp add: closed_run_def)
    qed
    with False show ?thesis by simp
  qed
qed

lemma run_captured_none:
  assumes "\<not> holds b (r + dr) (c + dc) (1 - p)"
  shows "run_captured b r c p (dr, dc) = {}"
  using run_captured_eq[of 0 b r dr c dc p] assms
  by (simp split: if_splits)

lemma scan_dir_wf:
  assumes wf: "wf_board b" and dir: "dr \<noteq> 0 \<or> dc \<noteq> 0"
  shows "scan_dir b r c p (dr, dc) flips = Some (Inr (flips \<union> run_captured b r c p (dr, dc)))"
proof (cases "holds b (r + dr) (c + dc) (1 - p)")
  case False
  then have "scan_dir b r c p (dr, dc) flips = Some (Inr flips)"
    using wf by (auto simp: scan_dir_def holds_def cell_at_wf)
  with run_captured_none[OF False] show ?thesis by simp
next
  case True
  from collect_run_wf[OF wf dir, of "1 - p" "r + dr" "c + dc" "[]"]
  obtain m where m:
    "collect_run b (1 - p) dr dc (r + dr) (c + dc) [] =
       Some (Inr (map (\<lambda>k. (r + dr + int k * dr, c + dc + int k * dc)) [0..<m],
                  r + dr + int m * dr, c + dc + int m * dc))"
    "\<forall>k<m. holds b (r + dr + int k * dr) (c + dc + int k * dc) (1 - p)"
    "\<not> holds b (r + dr + int m * dr) (c + dc + int m * dc) (1 - p)"
    by auto
  have e: "r + dr + int m * dr = r + int (Suc m) * dr" "c + dc + int m * dc = c + int (Suc m) * dc"
    by (simp_all add: algebra_simps)
  have run: "\<forall>k. 1 \<le> k \<and> k \<le> m \<longrightarrow> holds b (r + int k * dr) (c + int k * dc) (1 - p)"
  proof (intro allI impI)
    fix k assume k: "1 \<le> k \<and> k \<le> m"
    then obtain k' where k': "k = Suc k'" "k' < m" by (cases k) auto
    with m(2) have "holds b (r + dr + int k' * dr) (c + dc + int k' * dc) (1 - p)" by simp
    with k' show "holds b (r + int k * dr) (c + int k * dc) (1 - p)" by (simp add: algebra_simps)
  qed
  have stop: "\<not> holds b (r + int (Suc m) * dr) (c + int (Suc m) * dc) (1 - p)"
    using m(3) unfolding e .
  have line: "set (map (\<lambda>k. (r + dr + int k * dr, c + dc + int k * dc)) [0..<m]) =
      {(r + int k * dr, c + int k * dc) | k. 1 \<le> k \<and> k \<le> m}" (is "?L = ?R")
  proof (rule set_eqI, rule iffI)
    fix x assume "x \<in> ?L"
    then obtain k where "k < m" "x = (r + dr + int k * dr, c + dc + int k * dc)" by auto
    then show "x \<in> ?R"
      by (intro CollectI exI[of _ "Suc k"]) (simp add: algebra_simps)
  next
    fix x assume "x \<in> ?R"
    then obtain k where k: "1 \<le> k" "k \<le> m" "x = (r + int k * dr, c + int k * dc)" by auto
    then obtain k' where "k = Suc k'" "k' < m" by (cases k) auto
    with k(3) show "x \<in> ?L" by (auto simp: algebra_simps image_iff intro!: bexI[of _ k'])
  qed
  have first: "cell_at b (r + dr) (c + dc) = Inr (Some (1 - p))" "in_range (r + dr) (c + dc)"
    using True by (simp_all add: holds_def)
  show ?thesis
  proof (cases "holds b (r + int (Suc m) * dr) (c + int (Suc m) * dc) p")
    case True
    then have "scan_dir b r c p (dr, dc) flips =
        Some (Inr (flips \<union> set (map (\<lambda>k. (r + dr + int k * dr, c + dc + int k * dc)) [0..<m])))"
      unfolding scan_dir_def using first m(1) by (simp add: e holds_def)
    with run_captured_eq[OF run stop] True line show ?thesis by simp
  next
    case False
    then have "scan_dir b r c p (dr, dc) flips = Some (Inr flips)"
      unfolding scan_dir_def using first m(1) wf
      by (auto simp: e holds_def cell_at_wf)
    with run_captured_eq[OF run stop] False show ?thesis by simp
  qed
qed

lemma scan_dirs_wf:
  assumes "wf_board b" and "\<forall>d\<in>set ds. fst d \<noteq> 0 \<or> snd d \<noteq> 0"
  shows "scan_dirs b r c p ds flips = Some (Inr (flips \<union> (\<Union>d\<in>set ds. run_captured b r c p d)))"
  using assms(2)
proof (induction ds arbitrary: flips)
  case Nil
  then show ?case by simp
next
  case (Cons d ds)
  obtain dr dc where d: "d = (dr, dc)" by (cases d)
  with Cons.prems have "dr \<noteq> 0 \<or> dc \<noteq> 0" by simp
  from scan_dir_wf[OF assms(1) this] d Cons show ?case
    by (simp add: Un_assoc)
qed

lemma dirs_nonzero: "\<forall>d\<in>set dirs. fst d \<noteq> 0 \<or> snd d \<noteq> 0"
  by (simp add: dirs_def)

lemma pieces_flipped_wf:
  assumes "wf_board b"
  shows "pieces_flipped b r c p =
           (case cell_at b r c of
              Inl e \<Rightarrow> Some (Inl e)
            | Inr v \<Rightarrow> Some (Inr (if v \<noteq> None then {} else captured b r c p)))"
  by (simp add: pieces_flipped_def scan_dirs_wf[OF assms dirs_nonzero] captured_def
      split: sum.splits)

text \<open>
  C1. On an 8 by 8 board and at a coordinate inside it, \<open>pieces_flipped\<close> returns
  (it neither raises nor runs forever); the result is the empty set when the target
  cell is occupied, and when the target is empty it is exactly the union, over the
  eight directions, of the runs of opponent cells that start one step from the
  target and are closed inside the board by a cell of the mover. A run that leaves
  the board or ends at an empty cell contributes nothing.
\<close>

theorem pieces_flipped_correct:
  assumes "wf_board b" and "in_range r c"
  shows "pieces_flipped b r c (symbol_value mover) =
           Some (Inr (if cell_at b r c = Inr None
                      then captured b r c (symbol_value mover) else {}))"
  using assms by (simp add: pieces_flipped_wf cell_at_wf)

theorem pieces_flipped_correct_witness:
  "wf_board start_board \<and> in_range 2 4 \<and> cell_at start_board 2 4 = Inr None
   \<and> captured start_board 2 4 (symbol_value BLACK) = {(3, 4)}"
proof -
  have wf: "wf_board start_board" by code_simp
  have ir: "in_range 2 4" by code_simp
  have e: "cell_at start_board 2 4 = Inr None" by code_simp
  have v: "pieces_flipped start_board 2 4 (symbol_value BLACK) = Some (Inr {(3, 4)})"
    by code_simp
  from pieces_flipped_correct[OF wf ir, of BLACK] e v wf ir show ?thesis by simp
qed

lemma cell_at_wf_any:
  assumes "wf_board b"
  shows "if - 8 \<le> r \<and> r < 8 \<and> - 8 \<le> c \<and> c < 8
         then \<exists>v. cell_at b r c = Inr v else cell_at b r c = Inl IndexError"
proof (cases "- 8 \<le> r \<and> r < 8")
  case False
  with assms show ?thesis by (auto simp: cell_at_def py_index_def wf_board_def)
next
  case True
  with assms have "nat (if r < 0 then r + 8 else r) < length b" by (auto simp: wf_board_def)
  with assms have "length (b ! nat (if r < 0 then r + 8 else r)) = 8"
    by (simp add: wf_board_def list_all_length)
  with True assms show ?thesis
    by (auto simp: cell_at_def py_index_def wf_board_def)
qed

subsection \<open>Queries outside the board\<close>

text \<open>
  C2, as amended. On an 8 by 8 board \<open>pieces_flipped\<close> always returns. The walk in
  each direction is bounds-checked at every step, but the target cell is read
  before any check: the query raises \<^verbatim>\<open>IndexError\<close> exactly when \<open>r\<close> or \<open>c\<close> is
  outside \<open>[-8, 8)\<close>; with both inside, also when negative, it returns a capture
  set and raises nothing.
\<close>

theorem pieces_flipped_bounds:
  assumes "wf_board b"
  shows "(- 8 \<le> r \<and> r < 8 \<and> - 8 \<le> c \<and> c < 8 \<longrightarrow>
            (\<exists>flips. pieces_flipped b r c (symbol_value mover) = Some (Inr flips)))
       \<and> (\<not> (- 8 \<le> r \<and> r < 8 \<and> - 8 \<le> c \<and> c < 8) \<longrightarrow>
            pieces_flipped b r c (symbol_value mover) = Some (Inl IndexError))"
  using cell_at_wf_any[OF assms, of r c]
  by (auto simp: pieces_flipped_wf[OF assms] split: if_splits)

theorem pieces_flipped_bounds_witness:
  "wf_board start_board
   \<and> pieces_flipped start_board 8 0 (symbol_value BLACK) = Some (Inl IndexError)
   \<and> (\<exists>flips. pieces_flipped start_board (- 1) 0 (symbol_value BLACK) = Some (Inr flips))"
proof -
  have wf: "wf_board start_board" by code_simp
  from pieces_flipped_bounds[OF wf, of 8 0 BLACK] pieces_flipped_bounds[OF wf, of "- 1" 0 BLACK] wf
  show ?thesis by simp
qed

text \<open>
  The claim C2 as stated fails: the query at row 8 raises \<^verbatim>\<open>IndexError\<close>, and the
  query at row \<open>-1\<close>, which Python reads as row 7, reports the capture of \<open>(0, 0)\<close>.
\<close>

theorem pieces_flipped_bounds_counterexample:
  "wf_board start_board \<and> \<not> in_range 8 0
   \<and> pieces_flipped start_board 8 0 (symbol_value BLACK) = Some (Inl IndexError)
   \<and> wf_board edge_board \<and> \<not> in_range (- 1) 0
   \<and> pieces_flipped edge_board (- 1) 0 (symbol_value BLACK) = Some (Inr {(0, 0)})"
  by code_simp

subsection \<open>The move enumerator\<close>

lemma valid_moves_loop_wf:
  assumes "wf_board b" and "\<forall>m\<in>set cs. in_range (fst m) (snd m)"
  shows "valid_moves_loop b p cs =
           Some (Inr (map (\<lambda>m. (m, captured b (fst m) (snd m) p)) (filter (legal_move b p) cs)))"
  using assms(2)
proof (induction cs)
  case Nil
  then show ?case by simp
next
  case (Cons m cs)
  obtain r c where m: "m = (r, c)" by (cases m)
  with Cons.prems have ir: "in_range r c" by simp
  from Cons have IH: "valid_moves_loop b p cs =
      Some (Inr (map (\<lambda>m. (m, captured b (fst m) (snd m) p)) (filter (legal_move b p) cs)))"
    by simp
  have lm: "legal_move b p (r, c) \<longleftrightarrow> b ! nat r ! nat c = None \<and> captured b r c p \<noteq> {}"
    using ir by (simp add: legal_move_def cell_at_wf[OF assms(1) ir])
  show ?case
    by (auto simp: m IH pieces_flipped_wf[OF assms(1)] cell_at_wf[OF assms(1) ir] lm)
qed

lemma set_all_coords: "set all_coords = {m. in_range (fst m) (snd m)}"
  by (auto simp: all_coords_def in_range_def)

lemma get_valid_moves_wf:
  assumes "wf_board b"
  shows "get_valid_moves b color =
           Some (Inr (map (\<lambda>m. (m, captured b (fst m) (snd m) (symbol_value color)))
                        (filter (legal_move b (symbol_value color)) all_coords)))"
  unfolding get_valid_moves_def
  by (rule valid_moves_loop_wf[OF assms]) (simp add: set_all_coords)

text \<open>
  C3. On an 8 by 8 board \<open>get_valid_moves\<close> returns a dict whose keys are exactly
  the legal moves of the colour: the coordinates of the board that are empty and
  have a non-empty capture set. No key is an occupied cell, each key is mapped to
  its capture set, and the dict is empty if and only if the colour has no legal
  move.
\<close>

theorem get_valid_moves_keys:
  assumes "wf_board b"
  shows "\<exists>ms. get_valid_moves b color = Some (Inr ms)
          \<and> keys ms = {m. legal_move b (symbol_value color) m}
          \<and> (\<forall>m\<in>keys ms. cell_at b (fst m) (snd m) = Inr None)
          \<and> (\<forall>m flipped. (m, flipped) \<in> set ms \<longrightarrow>
                flipped = captured b (fst m) (snd m) (symbol_value color))
          \<and> (ms = [] \<longleftrightarrow> \<not> (\<exists>m. legal_move b (symbol_value color) m))"
proof -
  let ?ms = "map (\<lambda>m. (m, captured b (fst m) (snd m) (symbol_value color)))
               (filter (legal_move b (symbol_value color)) all_coords)"
  have k: "keys ?ms = {m. legal_move b (symbol_value color) m}"
    by (auto simp: keys_def set_all_coords image_iff legal_move_def)
  have "?ms = [] \<longleftrightarrow> keys ?ms = {}" unfolding keys_def by blast
  then have e: "?ms = [] \<longleftrightarrow> \<not> (\<exists>m. legal_move b (symbol_value color) m)"
    unfolding k by auto
  have o: "\<forall>m\<in>keys ?ms. cell_at b (fst m) (snd m) = Inr None"
    unfolding k by (simp add: legal_move_def)
  have v: "\<forall>m flipped. (m, flipped) \<in> set ?ms \<longrightarrow>
      flipped = captured b (fst m) (snd m) (symbol_value color)"
    by auto
  from get_valid_moves_wf[OF assms, of color] k e o v show ?thesis by blast
qed

theorem get_valid_moves_keys_witness:
  "wf_board start_board
   \<and> (\<exists>ms. get_valid_moves start_board WHITE = Some (Inr ms)
          \<and> keys ms = {m. legal_move start_board (symbol_value WHITE) m}
          \<and> ms \<noteq> [])"
proof -
  have wf: "wf_board start_board" by code_simp
  have "get_valid_moves start_board WHITE \<noteq> Some (Inr [])" by code_simp
  with get_valid_moves_keys[OF wf, of WHITE] wf show ?thesis by auto
qed

text \<open>
  C4, as amended. On the board the constructor builds, the keys of Black's legal
  moves are exactly \<open>(2, 4)\<close>, \<open>(3, 5)\<close>, \<open>(4, 2)\<close> and \<open>(5, 3)\<close>, and each of the four
  captures exactly one cell.
\<close>

theorem start_moves_black:
  "\<exists>ms. get_valid_moves (board (Game_init starting_player)) BLACK = Some (Inr ms)
     \<and> keys ms = {(2, 4), (3, 5), (4, 2), (5, 3)}
     \<and> list_all (\<lambda>kv. card (snd kv) = 1) ms"
proof -
  have "get_valid_moves start_board BLACK =
      Some (Inr [((2, 4), {(3, 4)}), ((3, 5), {(3, 4)}), ((4, 2), {(4, 3)}), ((5, 3), {(4, 3)})])"
    by code_simp
  then show ?thesis by (auto simp: Game_init_def keys_def)
qed

text \<open>
  The claim C4 as stated fails: Black's key set on the starting board is not
  \<open>{(2, 3), (3, 2), (4, 5), (5, 4)}\<close> (those are White's moves).
\<close>

theorem start_moves_black_counterexample:
  "map_option (map_sum id keys) (get_valid_moves (board (Game_init BLACK)) BLACK) =
     Some (Inr {(2, 4), (3, 5), (4, 2), (5, 3)})
   \<and> {(2, 4), (3, 5), (4, 2), (5, 3)} \<noteq> {(2, 3), (3, 2), (4, 5), (5, 4) :: coord}"
proof -
  have "get_valid_moves start_board BLACK =
      Some (Inr [((2, 4), {(3, 4)}), ((3, 5), {(3, 4)}), ((4, 2), {(4, 3)}), ((5, 3), {(4, 3)})])"
    by code_simp
  moreover have "{(2, 4), (3, 5), (4, 2), (5, 3)} \<noteq> {(2, 3), (3, 2), (4, 5), (5, 4) :: coord}"
    by code_simp
  ultimately show ?thesis by (simp add: Game_init_def keys_def)
qed

subsection \<open>The medium strategy\<close>

lemma random_choice_in:
  "seq \<noteq> [] \<Longrightarrow> \<exists>x. random_choice k seq = Inr x \<and> x \<in> set seq"
  by (simp add: random_choice_def)

text \<open>
  C8. Whenever at least one of the four corners is a key of the dict of legal
  moves, \<open>_medium_strategy\<close> returns, for every board and every draw \<open>k\<close> of the random
  source, a move whose coordinate is a corner and a key of the dict, paired with
  the capture set the dict gives it; it never returns a move that is no corner.
\<close>

theorem medium_strategy_corner:
  assumes "\<exists>corner\<in>set CORNERS. corner \<in> keys valid_moves"
  shows "\<exists>m flipped. medium_strategy self k b valid_moves = Some (Inr (m, flipped))
           \<and> m \<in> set CORNERS \<and> m \<in> keys valid_moves \<and> map_of valid_moves m = Some flipped"
proof -
  let ?vc = "filter (\<lambda>m. map_of valid_moves m \<noteq> None) CORNERS"
  from assms obtain corner where "corner \<in> set CORNERS" "corner \<in> keys valid_moves" by blast
  then have "corner \<in> set ?vc"
    by (auto simp: keys_def map_of_eq_None_iff)
  then have ne: "?vc \<noteq> []" by (metis empty_iff empty_set)
  from random_choice_in[OF ne, of k] obtain m where
    m: "random_choice k ?vc = Inr m" "m \<in> set ?vc" by blast
  then obtain flipped where f: "map_of valid_moves m = Some flipped" by auto
  then have "m \<in> keys valid_moves"
    by (auto simp: keys_def dest: map_of_SomeD intro: rev_image_eqI)
  moreover have "medium_strategy self k b valid_moves = Some (Inr (m, flipped))"
    using ne m(1) f by (simp add: medium_strategy_def choose_from_def lookup_move_def)
  ultimately show ?thesis using m(2) f by auto
qed

theorem medium_strategy_corner_witness:
  "(\<exists>corner\<in>set CORNERS. corner \<in> keys corner_moves)
   \<and> (\<exists>m flipped. medium_strategy \<lparr>bot_symbol = WHITE, human_symbol = BLACK, difficulty = MEDIUM\<rparr>
          5 start_board corner_moves = Some (Inr (m, flipped)) \<and> m \<in> set CORNERS)"
proof -
  have h: "\<exists>corner\<in>set CORNERS. corner \<in> keys corner_moves"
    by (simp add: CORNERS_def keys_def corner_moves_def)
  from medium_strategy_corner[OF h] h show ?thesis by blast
qed

subsection \<open>What a move writes\<close>

lemma py_index_Inr:
  "py_index xs i = Inr x \<Longrightarrow> 0 \<le> i \<Longrightarrow> nat i < length xs \<and> x = xs ! nat i"
  by (auto simp: py_index_def split: if_splits)

lemma set_cell_other:
  assumes "set_cell b r c v = Inr b'" and "0 \<le> r" "0 \<le> c" "0 \<le> i" "0 \<le> j" and "(i, j) \<noteq> (r, c)"
  shows "cell_at b' i j = cell_at b i j"
  using assms
  by (auto simp: set_cell_def cell_at_def py_index_def py_setitem_def nth_list_update
      split: sum.splits if_splits)

lemma flip_all_other:
  assumes "flip_all b v fl = Inr b'" and "\<forall>p\<in>set fl. 0 \<le> fst p \<and> 0 \<le> snd p"
    and "0 \<le> i" "0 \<le> j" and "(i, j) \<notin> set fl"
  shows "cell_at b' i j = cell_at b i j"
  using assms(1,2,5)
proof (induction fl arbitrary: b)
  case Nil
  then show ?case by simp
next
  case (Cons p fl)
  obtain r c where p: "p = (r, c)" by (cases p)
  from Cons.prems(1) obtain b1 where b1: "set_cell b r c v = Inr b1" "flip_all b1 v fl = Inr b'"
    by (auto simp: p split: sum.splits)
  from Cons.prems p have "0 \<le> r" "0 \<le> c" "(i, j) \<noteq> (r, c)" by auto
  from set_cell_other[OF b1(1) this(1,2) assms(3,4) this(3)]
  have "cell_at b1 i j = cell_at b i j" .
  moreover from Cons.IH[OF b1(2)] Cons.prems have "cell_at b' i j = cell_at b1 i j" by simp
  ultimately show ?case by simp
qed

lemma move_board:
  assumes "move g row col flipped = Inr g'"
  shows "\<exists>b1. set_cell (board g) row col (Some (symbol_value (current g))) = Inr b1
           \<and> flip_all b1 (Some (symbol_value (current g))) flipped = Inr (board g')"
  using assms
  by (auto simp: move_def Let_def Symbol_of_def split: sum.splits if_splits)

text \<open>
  C10. When \<open>Game.move\<close> returns, every cell of the board whose coordinate is
  neither the target \<open>(row, col)\<close> nor a member of \<open>flipped\<close> holds the value it held
  before the call. Coordinates are those of the board, counted from 0 (a negative
  index would be Python's name for a cell counted from the end).
\<close>

theorem move_frame:
  assumes "move g row col flipped = Inr g'"
    and "0 \<le> row" "0 \<le> col" and "\<forall>p\<in>set flipped. 0 \<le> fst p \<and> 0 \<le> snd p"
    and "0 \<le> i" "0 \<le> j" and "(i, j) \<noteq> (row, col)" and "(i, j) \<notin> set flipped"
  shows "cell_at (board g') i j = cell_at (board g) i j"
proof -
  from move_board[OF assms(1)] obtain b1 where
    b1: "set_cell (board g) row col (Some (symbol_value (current g))) = Inr b1"
        "flip_all b1 (Some (symbol_value (current g))) flipped = Inr (board g')" by blast
  from flip_all_other[OF b1(2) assms(4,5,6,8)] set_cell_other[OF b1(1) assms(2,3,5,6,7)]
  show ?thesis by simp
qed

theorem move_frame_witness:
  "\<exists>g'. move (Game_init BLACK) 2 4 [(3, 4)] = Inr g'
     \<and> cell_at (board g') 4 3 = cell_at (board (Game_init BLACK)) 4 3
     \<and> cell_at (board g') 4 3 = Inr (Some 1)"
proof -
  obtain g' where g': "move (Game_init BLACK) 2 4 [(3, 4)] = Inr g'"
    by (simp add: move_def Game_init_def start_board_def empty_board_def put_def set_cell_def
        py_index_def py_setitem_def Symbol_of_def)
  have c: "cell_at (board (Game_init BLACK)) 4 3 = Inr (Some 1)" by code_simp
  from move_frame[OF g', of 4 3] c have "cell_at (board g') 4 3 = Inr (Some 1)" by simp
  with g' c show ?thesis by simp
qed

subsection \<open>Colour symmetry of the legality engine\<close>

lemma py_index_map: "py_index (map f xs) i = map_sum id f (py_index xs i)"
  by (auto simp: py_index_def)

lemma cell_at_colorSwap: "cell_at (colorSwap b) r c = map_sum id swap_cell (cell_at b r c)"
  by (cases "py_index b r") (simp_all add: cell_at_def colorSwap_def py_index_map)

lemma swap_cell_eq:
  "v = 0 \<or> v = 1 \<Longrightarrow> swap_cell x = Some (1 - v) \<longleftrightarrow> x = Some v"
  by (auto simp: swap_cell_def)

lemma swap_cell_None: "swap_cell x = None \<longleftrightarrow> x = None"
  by (auto simp: swap_cell_def)

lemma collect_run_colorSwap:
  assumes "dr \<noteq> 0 \<or> dc \<noteq> 0" and "v = 0 \<or> v = 1"
  shows "collect_run (colorSwap b) (1 - v) dr dc row col line = collect_run b v dr dc row col line"
proof (induction "dist_to_edge dr dc row col" arbitrary: row col line rule: less_induct)
  case less
  show ?case
  proof (cases "in_range row col")
    case False
    then show ?thesis
      by (subst collect_run.simps, subst (2) collect_run.simps) simp
  next
    case True
    note IH = less[OF dist_to_edge_step[OF True assms(1)], of "line @ [(row, col)]"]
    show ?thesis
      by (subst collect_run.simps, subst (2) collect_run.simps)
        (cases "cell_at b row col";
         simp add: True cell_at_colorSwap swap_cell_eq[OF assms(2)] IH)
  qed
qed

lemma scan_dir_colorSwap:
  assumes "dr \<noteq> 0 \<or> dc \<noteq> 0" and "v = 0 \<or> v = 1"
  shows "scan_dir (colorSwap b) r c (1 - v) (dr, dc) flips = scan_dir b r c v (dr, dc) flips"
proof -
  have v': "1 - v = 0 \<or> 1 - v = 1" using assms(2) by auto
  have e1: "swap_cell x = Some v \<longleftrightarrow> x = Some (1 - v)" for x
    using swap_cell_eq[OF v', of x] by simp
  have e2: "swap_cell x = Some (1 - v) \<longleftrightarrow> x = Some v" for x
    by (rule swap_cell_eq[OF assms(2)])
  have cr: "collect_run (colorSwap b) v dr dc row col line =
      collect_run b (1 - v) dr dc row col line" for row col line
    using collect_run_colorSwap[OF assms(1) v', of b row col line] by simp
  show ?thesis
    unfolding scan_dir_def
    by (auto simp: cell_at_colorSwap e1 e2 cr split: sum.splits option.splits prod.splits)
qed

lemma scan_dirs_colorSwap:
  assumes "\<forall>d\<in>set ds. fst d \<noteq> 0 \<or> snd d \<noteq> 0" and "v = 0 \<or> v = 1"
  shows "scan_dirs (colorSwap b) r c (1 - v) ds flips = scan_dirs b r c v ds flips"
  using assms(1)
proof (induction ds arbitrary: flips)
  case Nil
  then show ?case by simp
next
  case (Cons d ds)
  obtain dr dc where d: "d = (dr, dc)" by (cases d)
  with Cons.prems have "dr \<noteq> 0 \<or> dc \<noteq> 0" by simp
  from scan_dir_colorSwap[OF this assms(2)] d Cons show ?case
    by (simp split: option.splits sum.splits)
qed

lemma pieces_flipped_colorSwap:
  assumes "v = 0 \<or> v = 1"
  shows "pieces_flipped (colorSwap b) r c (1 - v) = pieces_flipped b r c v"
  unfolding pieces_flipped_def
  by (cases "cell_at b r c")
    (simp_all add: cell_at_colorSwap swap_cell_None scan_dirs_colorSwap[OF dirs_nonzero assms])

text \<open>
  C9. For every board and every coordinate, what \<open>pieces_flipped\<close> computes for
  Black on the board is what it computes for White on the colour-swapped board:
  the same capture set, and the same exception where the read of the target
  raises.
\<close>

theorem pieces_flipped_symmetry:
  "pieces_flipped b r c (symbol_value BLACK) =
   pieces_flipped (colorSwap b) r c (symbol_value WHITE)"
  using pieces_flipped_colorSwap[of 0 b r c] by simp

theorem pieces_flipped_symmetry_witness:
  "pieces_flipped start_board 2 4 (symbol_value BLACK) = Some (Inr {(3, 4)})
   \<and> pieces_flipped (colorSwap start_board) 2 4 (symbol_value WHITE) = Some (Inr {(3, 4)})"
proof -
  have "pieces_flipped start_board 2 4 (symbol_value BLACK) = Some (Inr {(3, 4)})"
    by code_simp
  with pieces_flipped_symmetry[of start_board 2 4] show ?thesis by simp
qed

subsection \<open>Counting the cells of a board\<close>

lemma finite_in_range: "finite {p. in_range (fst p) (snd p)}"
proof -
  have "{p. in_range (fst p) (snd p)} \<subseteq> {0..7} \<times> {0..7}"
    by (auto simp: in_range_def)
  then show ?thesis by (rule finite_subset) simp
qed

lemma finite_cells_where: "finite (cells_where b P)"
  by (rule finite_subset[OF _ finite_in_range]) (auto simp: cells_where_def)

lemma count_conv_card:
  assumes "wf_board b"
  shows "length (filter P (concat b)) = card (cells_where b P)"
proof -
  let ?B = "\<lambda>i. {j. j < 8 \<and> P (b ! i ! j)}"
  have len: "length b = 8" and row: "\<And>i. i < 8 \<Longrightarrow> length (b ! i) = 8"
    using assms by (simp_all add: wf_board_def list_all_length)
  have "length (filter P (concat b)) = sum_list (map (\<lambda>xs. length (filter P xs)) b)"
    by (simp add: filter_concat length_concat comp_def)
  also have "\<dots> = (\<Sum>i = 0..<8. length (filter P (b ! i)))"
    by (simp add: sum_list_sum_nth len)
  also have "\<dots> = (\<Sum>i = 0..<8. card (?B i))"
  proof (rule sum.cong[OF refl])
    fix i assume "i \<in> {0..<8::nat}"
    then have "length (b ! i) = 8" using row by simp
    then show "length (filter P (b ! i)) = card (?B i)"
      by (simp add: length_filter_conv_card)
  qed
  also have "\<dots> = card (SIGMA i:{0..<8}. ?B i)"
    by (subst card_SigmaI) simp_all
  also have "\<dots> = card ((\<lambda>(i, j). (int i, int j)) ` (SIGMA i:{0..<8}. ?B i))"
    by (rule card_image[symmetric]) (auto simp: inj_on_def)
  also have "(\<lambda>(i, j). (int i, int j)) ` (SIGMA i:{0..<8}. ?B i) = cells_where b P"
  proof (rule set_eqI, rule iffI)
    fix p assume "p \<in> (\<lambda>(i, j). (int i, int j)) ` (SIGMA i:{0..<8}. ?B i)"
    then show "p \<in> cells_where b P"
      by (auto simp: cells_where_def in_range_def)
  next
    fix p assume p: "p \<in> cells_where b P"
    then have "(nat (fst p), nat (snd p)) \<in> (SIGMA i:{0..<8}. ?B i)"
      by (auto simp: cells_where_def in_range_def)
    moreover from p have "p = (\<lambda>(i, j). (int i, int j)) (nat (fst p), nat (snd p))"
      by (auto simp: cells_where_def in_range_def)
    ultimately show "p \<in> (\<lambda>(i, j). (int i, int j)) ` (SIGMA i:{0..<8}. ?B i)"
      by (rule rev_image_eqI)
  qed
  finally show ?thesis .
qed

subsection \<open>The cells after a move\<close>

lemma wf_put: "wf_board b \<Longrightarrow> wf_board (put b i j v)"
  by (cases "i < length b") (auto simp: wf_board_def put_def list_all_length nth_list_update)

lemma put_nth:
  assumes "wf_board b" and "r < 8" "c < 8" "i < 8" "j < 8"
  shows "put b r c v ! i ! j = (if i = r \<and> j = c then v else b ! i ! j)"
  using assms by (auto simp: wf_board_def put_def list_all_length nth_list_update)

lemma set_cell_wf:
  assumes "wf_board b" and "in_range r c"
  shows "set_cell b r c v = Inr (put b (nat r) (nat c) v)"
proof -
  from assms have "nat r < length b" by (auto simp: wf_board_def in_range_def)
  then have "length (b ! nat r) = 8"
    using assms(1) by (simp add: wf_board_def list_all_length)
  then show ?thesis
    using assms
    by (simp add: set_cell_def py_index_def py_setitem_def put_def wf_board_def in_range_def)
qed

lemma put_cell:
  assumes "wf_board b" and "in_range r c" and "in_range i j"
  shows "put b (nat r) (nat c) v ! nat i ! nat j = (if (i, j) = (r, c) then v else b ! nat i ! nat j)"
proof -
  from assms(2,3) have "nat r < 8" "nat c < 8" "nat i < 8" "nat j < 8"
    and "nat i = nat r \<longleftrightarrow> i = r" "nat j = nat c \<longleftrightarrow> j = c"
    by (auto simp: in_range_def)
  with put_nth[OF assms(1), of "nat r" "nat c" "nat i" "nat j" v] show ?thesis by simp
qed

lemma flip_all_wf:
  assumes "wf_board b" and "\<forall>p\<in>set fl. in_range (fst p) (snd p)"
  shows "\<exists>b'. flip_all b v fl = Inr b' \<and> wf_board b'
           \<and> (\<forall>i j. in_range i j \<longrightarrow>
                 b' ! nat i ! nat j = (if (i, j) \<in> set fl then v else b ! nat i ! nat j))"
  using assms
proof (induction fl arbitrary: b)
  case Nil
  then show ?case by simp
next
  case (Cons p fl)
  obtain r c where p: "p = (r, c)" by (cases p)
  with Cons.prems have ir: "in_range r c" by simp
  let ?b1 = "put b (nat r) (nat c) v"
  have wf1: "wf_board ?b1" by (rule wf_put[OF Cons.prems(1)])
  from Cons.IH[OF wf1] Cons.prems(2) obtain b' where
    b': "flip_all ?b1 v fl = Inr b'" "wf_board b'"
    "\<forall>i j. in_range i j \<longrightarrow> b' ! nat i ! nat j = (if (i, j) \<in> set fl then v else ?b1 ! nat i ! nat j)"
    by auto
  have "flip_all b v (p # fl) = Inr b'"
    by (simp add: p set_cell_wf[OF Cons.prems(1) ir] b'(1))
  moreover have "\<forall>i j. in_range i j \<longrightarrow>
      b' ! nat i ! nat j = (if (i, j) \<in> set (p # fl) then v else b ! nat i ! nat j)"
    using b'(3) by (auto simp: p put_cell[OF Cons.prems(1) ir])
  ultimately show ?case using b'(2) by blast
qed

lemma move_cells:
  assumes wf: "wf_board (board g)" and ir: "in_range row col"
    and fl: "\<forall>p\<in>set flipped. in_range (fst p) (snd p)"
    and mv: "move g row col flipped = Inr g'"
  shows "wf_board (board g')"
    and "\<And>i j. in_range i j \<Longrightarrow>
           board g' ! nat i ! nat j =
             (if (i, j) \<in> insert (row, col) (set flipped) then Some (symbol_value (current g))
              else board g ! nat i ! nat j)"
proof -
  let ?v = "Some (symbol_value (current g))"
  let ?b1 = "put (board g) (nat row) (nat col) ?v"
  from flip_all_wf[OF wf_put[OF wf] fl, of "nat row" "nat col" ?v ?v] obtain b' where
    b': "flip_all ?b1 ?v flipped = Inr b'" "wf_board b'"
    "\<forall>i j. in_range i j \<longrightarrow> b' ! nat i ! nat j = (if (i, j) \<in> set flipped then ?v else ?b1 ! nat i ! nat j)"
    by blast
  from move_board[OF mv] have "board g' = b'"
    by (simp add: set_cell_wf[OF wf ir] b'(1))
  with b'(2) show "wf_board (board g')" by simp
  fix i j assume "in_range i j"
  with b'(3) \<open>board g' = b'\<close> show "board g' ! nat i ! nat j =
      (if (i, j) \<in> insert (row, col) (set flipped) then ?v else board g ! nat i ! nat j)"
    by (auto simp: put_cell[OF wf ir])
qed

lemma captured_holds:
  assumes "p \<in> captured b r c v"
  shows "holds b (fst p) (snd p) (1 - v)"
proof -
  from assms obtain d k n where "p = (r + int k * fst d, c + int k * snd d)"
    "1 \<le> k" "k < n" "closed_run b r c v d n"
    by (auto simp: captured_def run_captured_def)
  then show ?thesis by (simp add: closed_run_def)
qed

lemma holds_wf: "wf_board b \<Longrightarrow> holds b i j v \<longleftrightarrow> in_range i j \<and> b ! nat i ! nat j = Some v"
  by (auto simp: holds_def cell_at_wf)

lemma capture_move_facts:
  assumes "capture_move g row col flipped g'"
  shows "wf_board (board g)" "in_range row col" "board g ! nat row ! nat col = None"
    "\<forall>p\<in>set flipped. in_range (fst p) (snd p)
        \<and> board g ! nat (fst p) ! nat (snd p) = Some (1 - symbol_value (current g))"
    "move g row col flipped = Inr g'"
proof -
  from assms show wf: "wf_board (board g)" and ir: "in_range row col"
    and "move g row col flipped = Inr g'"
    by (simp_all add: capture_move_def)
  from assms have e: "cell_at (board g) row col = Inr None" by (simp add: capture_move_def)
  with cell_at_wf[OF wf ir] show "board g ! nat row ! nat col = None" by simp
  from assms e have "set flipped = captured (board g) row col (symbol_value (current g))"
    by (simp add: capture_move_def pieces_flipped_wf[OF wf])
  then show "\<forall>p\<in>set flipped. in_range (fst p) (snd p)
        \<and> board g ! nat (fst p) ! nat (snd p) = Some (1 - symbol_value (current g))"
    using captured_holds[of _ "board g" row col "symbol_value (current g)"] holds_wf[OF wf]
    by blast
qed

lemma capture_move_counts:
  assumes cm: "capture_move g row col flipped g'"
  shows "wf_board (board g')"
    and "occupied (board g') = occupied (board g) + 1"
    and "count_cells (symbol_value (current g)) (board g') =
           count_cells (symbol_value (current g)) (board g) + 1 + card (set flipped)"
    and "count_cells (1 - symbol_value (current g)) (board g') + card (set flipped) =
           count_cells (1 - symbol_value (current g)) (board g)"
proof -
  let ?cur = "symbol_value (current g)"
  note f = capture_move_facts[OF cm]
  have fl: "\<forall>p\<in>set flipped. in_range (fst p) (snd p)" using f(4) by blast
  note mc = move_cells[OF f(1,2) fl f(5)]
  show wf': "wf_board (board g')" by (rule mc(1))
  note cell' = mc(2)
  have notin: "(row, col) \<notin> set flipped" using f(3,4) by force
  have neq: "1 - ?cur \<noteq> ?cur" by arith
  have "cells_where (board g') (\<lambda>cell. cell \<noteq> None) =
      insert (row, col) (cells_where (board g) (\<lambda>cell. cell \<noteq> None))"
    using f(2,4) by (auto simp: cells_where_def cell')
  moreover have "(row, col) \<notin> cells_where (board g) (\<lambda>cell. cell \<noteq> None)"
    using f(3) by (simp add: cells_where_def)
  ultimately show "occupied (board g') = occupied (board g) + 1"
    by (simp add: occupied_def count_conv_card[OF wf'] count_conv_card[OF f(1)] finite_cells_where)
  have eq: "cells_where (board g') (\<lambda>cell. cell = Some ?cur) =
      cells_where (board g) (\<lambda>cell. cell = Some ?cur) \<union> insert (row, col) (set flipped)"
    using f(2,4) by (auto simp: cells_where_def cell')
  have dj: "cells_where (board g) (\<lambda>cell. cell = Some ?cur) \<inter> insert (row, col) (set flipped) = {}"
    using f(3,4) neq by (auto simp: cells_where_def)
  have "card (cells_where (board g) (\<lambda>cell. cell = Some ?cur) \<union> insert (row, col) (set flipped)) =
      card (cells_where (board g) (\<lambda>cell. cell = Some ?cur)) + card (insert (row, col) (set flipped))"
    by (rule card_Un_disjoint[OF finite_cells_where _ dj]) simp
  moreover have "card (insert (row, col) (set flipped)) = 1 + card (set flipped)"
    using notin by simp
  ultimately show "count_cells ?cur (board g') = count_cells ?cur (board g) + 1 + card (set flipped)"
    unfolding count_cells_def count_conv_card[OF wf'] count_conv_card[OF f(1)] eq by simp
  have eq2: "cells_where (board g) (\<lambda>cell. cell = Some (1 - ?cur)) =
      cells_where (board g') (\<lambda>cell. cell = Some (1 - ?cur)) \<union> set flipped"
    using f(3,4) neq by (auto simp: cells_where_def cell' split: if_splits)
  have dj2: "cells_where (board g') (\<lambda>cell. cell = Some (1 - ?cur)) \<inter> set flipped = {}"
    using f(4) neq by (auto simp: cells_where_def cell' split: if_splits)
  have "card (cells_where (board g') (\<lambda>cell. cell = Some (1 - ?cur)) \<union> set flipped) =
      card (cells_where (board g') (\<lambda>cell. cell = Some (1 - ?cur))) + card (set flipped)"
    by (rule card_Un_disjoint[OF finite_cells_where _ dj2]) simp
  then show "count_cells (1 - ?cur) (board g') + card (set flipped) = count_cells (1 - ?cur) (board g)"
    unfolding count_cells_def count_conv_card[OF wf'] count_conv_card[OF f(1)]
    using eq2 by simp
qed

lemma pieces_cur: "pieces b = count_cells (symbol_value s) b + count_cells (1 - symbol_value s) b"
  by (cases s) (simp_all add: pieces_def)

lemma capture_move_pieces:
  assumes "capture_move g row col flipped g'"
  shows "pieces (board g') = pieces (board g) + 1"
  using capture_move_counts(3,4)[OF assms]
  by (simp add: pieces_cur[of _ "current g"])

lemma capture_steps_pieces:
  "capture_step\<^sup>*\<^sup>* g h \<Longrightarrow> pieces (board g) \<le> pieces (board h)"
proof (induction rule: rtranclp_induct)
  case base
  then show ?case by simp
next
  case (step y z)
  from step.hyps(2) obtain row col flipped where "capture_move y row col flipped z"
    by (auto simp: capture_step_def)
  from capture_move_pieces[OF this] step.IH show ?case by simp
qed

text \<open>
  C6, as amended. A move on an empty cell of an 8 by 8 board, with the capture set
  that \<open>pieces_flipped\<close> computes for the colour to move, raises the number of
  occupied cells by exactly 1 and the mover's own count by exactly
  \<open>1 + |captureSet|\<close> (the captured cells were occupied already, by the opponent).
  Across any sequence of such moves the number of Black plus White cells never
  decreases.
\<close>

theorem move_conservation:
  "(capture_move g row col flipped g' \<longrightarrow>
      occupied (board g') = occupied (board g) + 1
      \<and> count_cells (symbol_value (current g)) (board g') =
          count_cells (symbol_value (current g)) (board g) + 1 + card (set flipped))
   \<and> (capture_step\<^sup>*\<^sup>* g h \<longrightarrow> pieces (board g) \<le> pieces (board h))"
  using capture_move_counts(2,3)[of g row col flipped g'] capture_steps_pieces[of g h]
  by blast

theorem move_conservation_witness:
  "capture_move (Game_init BLACK) 2 4 [(3, 4)] after_opening
   \<and> capture_step\<^sup>*\<^sup>* (Game_init BLACK) after_opening
   \<and> occupied (board after_opening) = occupied (board (Game_init BLACK)) + 1
   \<and> count_cells (symbol_value (current (Game_init BLACK))) (board after_opening) =
       count_cells (symbol_value (current (Game_init BLACK))) (board (Game_init BLACK)) + 1
         + card (set [(3, 4) :: coord])
   \<and> pieces (board (Game_init BLACK)) \<le> pieces (board after_opening)"
proof -
  have cm: "capture_move (Game_init BLACK) 2 4 [(3, 4)] after_opening" by code_simp
  then have "capture_step (Game_init BLACK) after_opening"
    unfolding capture_step_def by blast
  then have cs: "capture_step\<^sup>*\<^sup>* (Game_init BLACK) after_opening" by (rule r_into_rtranclp)
  from move_conservation[of "Game_init BLACK" 2 4 "[(3, 4)]" after_opening after_opening] cm cs
  show ?thesis by blast
qed

text \<open>
  The claim C6 as stated fails: Black's opening move \<open>(2, 4)\<close> captures one cell and
  takes the occupied cells from 4 to 5, not to \<open>4 + (1 + 1)\<close>.
\<close>

theorem move_conservation_counterexample:
  "capture_move (Game_init BLACK) 2 4 [(3, 4)] after_opening
   \<and> occupied (board (Game_init BLACK)) = 4
   \<and> occupied (board after_opening) = 5
   \<and> 1 + card (set [(3, 4) :: coord]) = 2
   \<and> occupied (board after_opening) \<noteq>
       occupied (board (Game_init BLACK)) + (1 + card (set [(3, 4) :: coord]))"
  by code_simp

subsection \<open>A game of sixty moves\<close>

lemma find_winner_board: "board g' = board g \<Longrightarrow> find_winner g' = find_winner g"
  by (simp add: find_winner_def)

lemma move_fields:
  assumes "move g row col flipped = Inr g'"
  shows "moves g' = moves g + 1"
    and "moves g + 1 = 60 \<Longrightarrow> game_over g' \<and> winner g' = find_winner g' \<and> current g' = current g"
    and "moves g + 1 \<noteq> 60 \<Longrightarrow> game_over g' = game_over g \<and> winner g' = winner g
           \<and> symbol_value (current g') = 1 - symbol_value (current g)"
  using assms
  by (auto simp: move_def Let_def Symbol_of_def find_winner_def split: sum.splits if_splits)

lemma legal_step_capture:
  assumes wf: "wf_board (board g)" and "legal_step g g'"
  shows "capture_step g g'"
proof -
  from assms(2) obtain row col flipped where l:
    "in_range row col"
    "pieces_flipped (board g) row col (symbol_value (current g)) = Some (Inr (set flipped))"
    "set flipped \<noteq> {}" "move g row col flipped = Inr g'"
    by (auto simp: legal_step_def)
  from l(2,3) have "cell_at (board g) row col = Inr None"
    by (auto simp: pieces_flipped_wf[OF wf] cell_at_wf[OF wf l(1)] split: if_splits)
  with wf l have "capture_move g row col flipped g'" by (simp add: capture_move_def)
  then show ?thesis unfolding capture_step_def by blast
qed

lemma legal_steps_invariant:
  assumes "(legal_step ^^ n) (Game_init starting_player) g"
  shows "wf_board (board g) \<and> moves g = int n \<and> pieces (board g) = 4 + n
         \<and> (n = 60 \<longrightarrow> game_over g \<and> winner g = find_winner g)
         \<and> (n < 60 \<longrightarrow> \<not> game_over g)"
  using assms
proof (induction n arbitrary: g)
  case 0
  have "wf_board start_board" by code_simp
  moreover have "pieces start_board = 4" by code_simp
  moreover from 0 have "g = Game_init starting_player" by simp
  ultimately show ?case by (simp add: Game_init_def)
next
  case (Suc n)
  from Suc.prems obtain h where h: "(legal_step ^^ n) (Game_init starting_player) h"
    and st: "legal_step h g" by auto
  note IH = Suc.IH[OF h]
  from legal_step_capture[OF _ st] IH obtain row col flipped where
    cm: "capture_move h row col flipped g" by (auto simp: capture_step_def)
  then have mv: "move h row col flipped = Inr g" by (simp add: capture_move_def)
  note mf = move_fields[OF mv]
  have "wf_board (board g)" by (rule capture_move_counts(1)[OF cm])
  moreover have "moves g = int (Suc n)" using mf(1) IH by simp
  moreover have "pieces (board g) = 4 + Suc n" using capture_move_pieces[OF cm] IH by simp
  moreover have "Suc n = 60 \<longrightarrow> game_over g \<and> winner g = find_winner g"
    using mf(2) IH by auto
  moreover have "Suc n < 60 \<longrightarrow> \<not> game_over g"
    using mf(3) IH by auto
  ultimately show ?case by blast
qed

text \<open>
  C7. From the starting state, with either colour to start, after 60 applications
  of \<open>Game.move\<close>, each with a legal move of the colour then to move, the game is
  over, its result is the value that \<open>_find_winner\<close> returns on the final board
  (Black, White or a draw), and the Black cells plus the White cells are 64.
\<close>

theorem sixty_moves_terminal:
  assumes "(legal_step ^^ 60) (Game_init starting_player) g"
  shows "game_over g \<and> winner g = find_winner g
         \<and> count_cells (symbol_value BLACK) (board g)
             + count_cells (symbol_value WHITE) (board g) = 64"
  using legal_steps_invariant[OF assms] by (simp add: pieces_def)

lemma replay_sound:
  "replay g ms = Some g' \<Longrightarrow> (legal_step ^^ length ms) g g'"
proof (induction ms arbitrary: g)
  case Nil
  then show ?case by simp
next
  case (Cons m ms)
  obtain r c flipped where m: "m = ((r, c), flipped)" by (cases m) auto
  from Cons.prems obtain h where
    ok: "in_range r c"
      "pieces_flipped (board g) r c (symbol_value (current g)) = Some (Inr (set flipped))"
      "set flipped \<noteq> {}"
    and mv: "move g r c flipped = Inr h" and rest: "replay h ms = Some g'"
    by (auto simp: m split: if_splits sum.splits)
  from ok mv have "legal_step g h" unfolding legal_step_def by blast
  from relpowp_Suc_I2[OF this Cons.IH[OF rest]] show ?case by simp
qed

theorem sixty_moves_terminal_witness:
  "\<exists>g. (legal_step ^^ 60) (Game_init BLACK) g \<and> game_over g
      \<and> count_cells (symbol_value BLACK) (board g)
          + count_cells (symbol_value WHITE) (board g) = 64"
proof -
  have "replay (Game_init BLACK) full_game \<noteq> None" by code_simp
  then obtain g where g: "replay (Game_init BLACK) full_game = Some g" by blast
  have "length full_game = 60" by (simp add: full_game_def)
  with replay_sound[OF g] have run: "(legal_step ^^ 60) (Game_init BLACK) g" by simp
  from sixty_moves_terminal[OF run] run show ?thesis by blast
qed

subsection \<open>The winner\<close>

text \<open>
  The second sum of \<open>_find_winner\<close> reads a generator that the first sum has
  exhausted, so the White count it compares with is always 0: the result is a draw
  when Black has no cell and Black otherwise.
\<close>

lemma find_winner_black_or_draw:
  "find_winner g = (if count_cells (symbol_value BLACK) (board g) = 0 then None else Some BLACK)"
  by (simp add: find_winner_def sum_equal_def count_cells_def Let_def)

lemma find_winner_never_white: "find_winner g \<noteq> Some WHITE"
  by (simp add: find_winner_black_or_draw)

text \<open>
  C5 at a state the game reaches. After the 59 first moves of \<open>full_game\<close> White
  plays the legal move \<open>(0, 6)\<close>, which captures \<open>(1, 5)\<close>. The move count becomes 60
  and the game is over with 18 Black cells and 46 White cells, and the winner that
  \<open>Game.move\<close> records is Black, where C5 says the strictly greater count wins.
\<close>

theorem find_winner_white_majority:
  "replay (Game_init BLACK) (take 59 full_game) = Some late_game
   \<and> pieces_flipped (board late_game) 0 6 (symbol_value (current late_game)) = Some (Inr {(1, 5)})
   \<and> map_sum id (\<lambda>g. (moves g, game_over g, winner g,
                        count_cells (symbol_value BLACK) (board g),
                        count_cells (symbol_value WHITE) (board g)))
        (move late_game 0 6 [(1, 5)]) = Inr (60, True, Some BLACK, 18, 46)"
  by code_simp

end
